theory Spec2Isabelle
  imports Complex_Main "HOL-Library.Multiset"
begin

section \<open>Strings and the library functions the scraper calls\<close>

text \<open>
  The scraper (\<^verbatim>\<open>site_scraper.py\<close>) is Python; its strings are modelled as
  \<^typ>\<open>string\<close>. The helpers below are the standard-library operations the
  source calls: \<^verbatim>\<open>str.split\<close>, \<^verbatim>\<open>os.path.join\<close> (POSIX) and
  \<^verbatim>\<open>urllib.parse.urlparse\<close>.
\<close>

text \<open>\<^verbatim>\<open>s.split(c)\<close>: the pieces between the occurrences of \<open>c\<close>, empty pieces kept.\<close>

primrec split_on :: "char \<Rightarrow> string \<Rightarrow> string list" where
  "split_on c [] = [[]]"
| "split_on c (x # xs) =
     (if x = c then [] # split_on c xs
      else (case split_on c xs of [] \<Rightarrow> [[x]] | w # ws \<Rightarrow> (x # w) # ws))"

text \<open>
  \<^verbatim>\<open>os.path.join(path, *parts)\<close> of \<^verbatim>\<open>posixpath\<close>: a part that starts with
  \<open>/\<close> discards what came before; otherwise parts are joined by one \<open>/\<close>, none being
  added after an empty path or after a path that already ends with \<open>/\<close>.
\<close>

fun os_path_join :: "string \<Rightarrow> string list \<Rightarrow> string" where
  "os_path_join p [] = p"
| "os_path_join p (b # bs) =
     os_path_join
       (if take 1 b = ''/'' then b
        else if p = [] \<or> last p = CHR ''/'' then p @ b
        else p @ ''/'' @ b) bs"

record parse_result =
  scheme :: string
  netloc :: string
  path :: string
  params :: string
  query :: string
  fragment :: string

definition ascii_letters :: string where
  "ascii_letters = ''abcdefghijklmnopqrstuvwxyzABCDEFGHIJKLMNOPQRSTUVWXYZ''"

definition scheme_chars :: string where
  "scheme_chars = ascii_letters @ ''0123456789+-.''"

definition lower :: "string \<Rightarrow> string" where
  "lower s = map (\<lambda>c. case map_of (zip ''ABCDEFGHIJKLMNOPQRSTUVWXYZ''
                                        ''abcdefghijklmnopqrstuvwxyz'') c of
                        None \<Rightarrow> c | Some l \<Rightarrow> l) s"

definition uses_params :: "string list" where
  "uses_params = ['''', ''ftp'', ''hdl'', ''prospero'', ''http'', ''imap'', ''https'',
                  ''shttp'', ''rtsp'', ''rtsps'', ''rtspu'', ''sip'', ''sips'', ''mms'',
                  ''sftp'', ''tel'']"

text \<open>\<^verbatim>\<open>s.split(c, 1)\<close> for a string that contains \<open>c\<close>: the text before and after
  the first \<open>c\<close>.\<close>

definition split_first :: "char \<Rightarrow> string \<Rightarrow> string \<times> string" where
  "split_first c s = (takeWhile (\<lambda>x. x \<noteq> c) s, drop 1 (dropWhile (\<lambda>x. x \<noteq> c) s))"

text \<open>
  \<^verbatim>\<open>_splitparams\<close>: the parameters are what follows the first \<open>;\<close> of the last
  path segment.
\<close>

definition splitparams :: "string \<Rightarrow> string \<times> string" where
  "splitparams u =
     (if CHR ''/'' \<in> set u then
        (let seg = rev (takeWhile (\<lambda>x. x \<noteq> CHR ''/'') (rev u));
             front = take (length u - length seg) u
         in if CHR '';'' \<in> set seg
            then (front @ fst (split_first CHR '';'' seg), snd (split_first CHR '';'' seg))
            else (u, ''''))
      else split_first CHR '';'' u)"

text \<open>
  \<^verbatim>\<open>urllib.parse.urlparse\<close> (CPython 3.11) on a string without leading blanks,
  control characters or square brackets: scheme, then network location, then fragment,
  query and parameters are cut off in this order. The validation of bracketed hosts,
  which raises \<^verbatim>\<open>ValueError\<close>, and the stripping of blanks are left out; the
  general results below do not depend on this function, they take the parser from the
  environment.
\<close>

definition py_urlparse :: "string \<Rightarrow> parse_result" where
  "py_urlparse url0 =
     (let pre = takeWhile (\<lambda>x. x \<noteq> CHR '':'') url0;
          has_scheme = (CHR '':'' \<in> set url0 \<and> pre \<noteq> [] \<and> hd pre \<in> set ascii_letters
                        \<and> list_all (\<lambda>c. c \<in> set scheme_chars) pre);
          sch = (if has_scheme then lower pre else '''');
          url1 = (if has_scheme then drop (length pre + 1) url0 else url0);
          is_delim = (\<lambda>x. x = CHR ''/'' \<or> x = CHR ''?'' \<or> x = CHR ''#'');
          has_netloc = (take 2 url1 = ''//'');
          nl = (if has_netloc then takeWhile (\<lambda>x. \<not> is_delim x) (drop 2 url1) else '''');
          url2 = (if has_netloc then dropWhile (\<lambda>x. \<not> is_delim x) (drop 2 url1) else url1);
          has_frag = (CHR ''#'' \<in> set url2);
          url3 = (if has_frag then fst (split_first CHR ''#'' url2) else url2);
          frag = (if has_frag then snd (split_first CHR ''#'' url2) else '''');
          has_query = (CHR ''?'' \<in> set url3);
          url4 = (if has_query then fst (split_first CHR ''?'' url3) else url3);
          qry = (if has_query then snd (split_first CHR ''?'' url3) else '''');
          has_params = (sch \<in> set uses_params \<and> CHR '';'' \<in> set url4);
          url5 = (if has_params then fst (splitparams url4) else url4);
          prm = (if has_params then snd (splitparams url4) else '''')
      in \<lparr>scheme = sch, netloc = nl, path = url5, params = prm, query = qry,
          fragment = frag\<rparr>)"

section \<open>Data model and environment\<close>

text \<open>
  The dictionary \<^verbatim>\<open>{'url': ..., 'markdown': ..., 'links': ...}\<close> that
  \<^verbatim>\<open>scrape_page\<close> returns.
\<close>

record page_result =
  url :: string
  markdown :: string
  links :: "string list"

text \<open>The exceptions that the body of \<^verbatim>\<open>scrape_page\<close> can raise inside its
  \<^verbatim>\<open>try\<close> block.\<close>

datatype exn =
    Timeout
  | ConnectionError
  | HTTPError nat
  | ConversionError
  | ActorError

record response =
  status_code :: nat
  resp_text :: string

text \<open>
  Everything outside the program is an environment: the URL library, the remote site
  (\<^verbatim>\<open>requests.get\<close>, which may answer differently at every request and is
  therefore indexed by the number of the request), the HTML converters, and the Ray
  scheduler, which decides which outstanding task \<^verbatim>\<open>ray.wait\<close> reports as done.
  A task is the number of its launch together with its URL.
\<close>

type_synonym task = "nat \<times> string"

record env =
  urlparse :: "string \<Rightarrow> parse_result"
  urljoin :: "string \<Rightarrow> string \<Rightarrow> string"
  requests_get :: "nat \<Rightarrow> string \<Rightarrow> exn + response"
  markdownify :: "string \<Rightarrow> exn + string"
  find_hrefs :: "string \<Rightarrow> exn + string list"
  ray_wait :: "task list \<Rightarrow> nat"

section \<open>Saving a page\<close>

text \<open>\<^verbatim>\<open>re.sub(r'[\\/*?:"<>|]', "_", name)\<close>.\<close>

definition unsafe_chars :: "char list" where
  "unsafe_chars = [CHR 0x5C, CHR ''/'', CHR ''*'', CHR ''?'', CHR '':'', CHR 0x22,
                   CHR ''<'', CHR ''>'', CHR ''|'']"

definition sanitize_filename :: "string \<Rightarrow> string" where
  "sanitize_filename name = map (\<lambda>c. if c \<in> set unsafe_chars then CHR ''_'' else c) name"

text \<open>
  \<^verbatim>\<open>save_page\<close>. The file system is the list of the writes made so far, oldest
  first, each a path with the content written; \<^verbatim>\<open>open(path, "w")\<close> replaces a
  file, so the content of a path is that of its latest write. The function is split
  into the computation of the path and the write. \<^verbatim>\<open>os.makedirs\<close> and the message
  printed are left out: directories are not part of the state.
\<close>

type_synonym files = "(string \<times> string) list"

definition path_parts :: "env \<Rightarrow> string \<Rightarrow> string list" where
  "path_parts E u =
     map sanitize_filename (filter (\<lambda>part. part \<noteq> []) (split_on CHR ''/'' (path (urlparse E u))))"

definition save_file_path :: "env \<Rightarrow> string \<Rightarrow> string \<Rightarrow> string" where
  "save_file_path E u output_dir =
     (let parsed = urlparse E u;
          host = sanitize_filename (netloc parsed);
          frag = fragment parsed;
          parts = path_parts E u;
          final_endpoint = (if parts \<noteq> [] then last parts else host);
          dir_parts = (if parts \<noteq> [] then butlast parts else []);
          directory = os_path_join output_dir (host # dir_parts);
          filename = (if frag \<noteq> [] then final_endpoint @ ''_'' @ sanitize_filename frag @ ''.md''
                      else final_endpoint @ ''.md'')
      in os_path_join directory [filename])"

definition save_page :: "env \<Rightarrow> string \<Rightarrow> string \<Rightarrow> string \<Rightarrow> files \<Rightarrow> files" where
  "save_page E u markdown_content output_dir fs =
     fs @ [(save_file_path E u output_dir, ''# '' @ u @ [CHR 0x0A, CHR 0x0A] @ markdown_content)]"


section \<open>The rate limiter\<close>

text \<open>
  The actor \<^verbatim>\<open>RateLimiter\<close>. Ray runs the methods of an actor one at a time, so
  the calls of all concurrent fetchers form one sequence. Time is a real number of
  seconds read from the clock; a call of \<^verbatim>\<open>acquire\<close> reads the clock on entry
  (\<open>now\<close>) and, unless it is the first call, once more before it returns
  (\<open>later\<close>). The result is the new state together with the argument of
  \<^verbatim>\<open>time.sleep\<close>, if the call slept.
\<close>

record rate_limiter =
  delay :: real
  last_request :: real

definition rate_limiter_init :: "real \<Rightarrow> rate_limiter" where
  "rate_limiter_init d = \<lparr>delay = d, last_request = 0\<rparr>"

definition acquire :: "rate_limiter \<Rightarrow> real \<Rightarrow> real \<Rightarrow> rate_limiter \<times> real option" where
  "acquire rl now later =
     (if last_request rl = 0 then (rl\<lparr>last_request := now\<rparr>, None)
      else (let elapsed = now - last_request rl
            in (rl\<lparr>last_request := later\<rparr>,
                if elapsed < delay rl then Some (delay rl - elapsed) else None)))"

text \<open>A sequence of calls, each given by its two clock readings: the states after
  each call, and what each call slept.\<close>

fun acquire_all :: "rate_limiter \<Rightarrow> (real \<times> real) list \<Rightarrow> (rate_limiter \<times> real option) list" where
  "acquire_all rl [] = []"
| "acquire_all rl ((now, later) # cs) =
     acquire rl now later # acquire_all (fst (acquire rl now later)) cs"

text \<open>The moment at which each call is granted: the timestamp it leaves in
  \<^verbatim>\<open>last_request\<close>.\<close>

definition grants :: "rate_limiter \<Rightarrow> (real \<times> real) list \<Rightarrow> real list" where
  "grants rl cs = map (\<lambda>r. last_request (fst r)) (acquire_all rl cs)"

text \<open>
  What is assumed of the clock: it shows a positive time, it never runs backwards
  (a call is entered no earlier than the previous one was granted), and
  \<^verbatim>\<open>time.sleep(d)\<close> lasts at least \<open>d\<close> seconds.
\<close>

fun clock_ok :: "rate_limiter \<Rightarrow> (real \<times> real) list \<Rightarrow> bool" where
  "clock_ok rl [] = True"
| "clock_ok rl ((now, later) # cs) =
     (0 < now \<and> last_request rl \<le> now
      \<and> now + (case snd (acquire rl now later) of None \<Rightarrow> 0 | Some d \<Rightarrow> d) \<le> later
      \<and> clock_ok (fst (acquire rl now later)) cs)"

text \<open>Consecutive elements of a list differ by at least \<open>d\<close>.\<close>

fun spaced :: "real \<Rightarrow> real list \<Rightarrow> bool" where
  "spaced d (a # b # ts) = (a + d \<le> b \<and> spaced d (b # ts))"
| "spaced d ts = True"

section \<open>The fetch worker\<close>

definition raise_for_status :: "response \<Rightarrow> exn + unit" where
  "raise_for_status r =
     (if 400 \<le> status_code r \<and> status_code r < 600 then Inl (HTTPError (status_code r))
      else Inr ())"

text \<open>
  \<^verbatim>\<open>scrape_page\<close>. The handle of the rate limiter is \<open>None\<close> or the outcome of
  the remote call of \<^verbatim>\<open>acquire\<close> for each request (the call blocks, and fails
  if the actor has died). \<open>try_scrape\<close> is the body of the \<^verbatim>\<open>try\<close> block, an
  exception being \<open>Inl\<close>; \<open>scrape_page\<close> adds the handler, and returns the
  dictionary together with what it printed: the URL and the exception of a failure.
\<close>

type_synonym limiter_handle = "(nat \<Rightarrow> exn + unit) option"

definition try_scrape :: "env \<Rightarrow> limiter_handle \<Rightarrow> nat \<Rightarrow> string \<Rightarrow> exn + page_result" where
  "try_scrape E limiter n u =
     (case (case limiter of None \<Rightarrow> Inr () | Some acq \<Rightarrow> acq n) of
        Inl e \<Rightarrow> Inl e
      | Inr _ \<Rightarrow>
     (case requests_get E n u of
        Inl e \<Rightarrow> Inl e
      | Inr resp \<Rightarrow>
     (case raise_for_status resp of
        Inl e \<Rightarrow> Inl e
      | Inr _ \<Rightarrow>
     (case markdownify E (resp_text resp) of
        Inl e \<Rightarrow> Inl e
      | Inr markdown_content \<Rightarrow>
     (case find_hrefs E (resp_text resp) of
        Inl e \<Rightarrow> Inl e
      | Inr ls \<Rightarrow> Inr \<lparr>url = u, markdown = markdown_content, links = ls\<rparr>)))))"

definition scrape_page ::
  "env \<Rightarrow> limiter_handle \<Rightarrow> nat \<Rightarrow> string \<Rightarrow> page_result \<times> (string \<times> exn) list" where
  "scrape_page E limiter n u =
     (case try_scrape E limiter n u of
        Inr r \<Rightarrow> (r, [])
      | Inl e \<Rightarrow> (\<lparr>url = u, markdown = '''', links = []\<rparr>, [(u, e)]))"

section \<open>The link filter\<close>

fun filter_links_loop :: "env \<Rightarrow> string \<Rightarrow> string \<Rightarrow> string list \<Rightarrow> string list \<Rightarrow> string list" where
  "filter_links_loop E base_url base_domain [] filtered = filtered"
| "filter_links_loop E base_url base_domain (link # rest) filtered =
     (let absolute = urljoin E base_url link
      in filter_links_loop E base_url base_domain rest
           (if netloc (urlparse E absolute) = base_domain then filtered @ [absolute]
            else filtered))"

definition filter_links :: "env \<Rightarrow> string list \<Rightarrow> string \<Rightarrow> string list" where
  "filter_links E ls base_url =
     filter_links_loop E base_url (netloc (urlparse E base_url)) ls []"

section \<open>The dispatcher\<close>

text \<open>
  \<^verbatim>\<open>process_urls\<close>. \<^verbatim>\<open>scrape_page.remote\<close> launches a task, which gets the
  next request number; \<^verbatim>\<open>ray.wait(tasks, num_returns=1)\<close> takes the task the
  scheduler names out of the pool, the others keeping their order;
  \<^verbatim>\<open>ray.get\<close> is the dictionary a task returns. Besides the variables
  \<^verbatim>\<open>tasks\<close> and \<^verbatim>\<open>results\<close> the state records what was launched and the
  size of the pool after each launch.
\<close>

record pool =
  tasks :: "task list"
  results :: "page_result list"
  next_id :: nat
  launches :: "task list"
  outstanding :: "nat list"

definition ray_get :: "env \<Rightarrow> limiter_handle \<Rightarrow> task \<Rightarrow> page_result" where
  "ray_get E limiter t = fst (scrape_page E limiter (fst t) (snd t))"

fun process_loop :: "env \<Rightarrow> limiter_handle \<Rightarrow> int \<Rightarrow> string list \<Rightarrow> pool \<Rightarrow> pool" where
  "process_loop E limiter max_concurrency [] p = p"
| "process_loop E limiter max_concurrency (u # us) p =
     (let ts = tasks p @ [(next_id p, u)];
          p1 = p\<lparr>tasks := ts, next_id := Suc (next_id p),
                 launches := launches p @ [(next_id p, u)],
                 outstanding := outstanding p @ [length ts]\<rparr>
      in if max_concurrency \<le> int (length ts) then
           (let i = ray_wait E ts mod length ts
            in process_loop E limiter max_concurrency us
                 (p1\<lparr>tasks := take i ts @ drop (Suc i) ts,
                      results := results p @ [ray_get E limiter (ts ! i)]\<rparr>))
         else process_loop E limiter max_concurrency us p1)"

definition process_urls :: "env \<Rightarrow> limiter_handle \<Rightarrow> int \<Rightarrow> string list \<Rightarrow> nat \<Rightarrow> pool" where
  "process_urls E limiter max_concurrency urls n0 =
     (let p = process_loop E limiter max_concurrency urls
                \<lparr>tasks = [], results = [], next_id = n0, launches = [], outstanding = []\<rparr>
      in p\<lparr>results := results p @ map (ray_get E limiter) (tasks p)\<rparr>)"

section \<open>The crawl engine\<close>

text \<open>
  \<^verbatim>\<open>crawl_website\<close>. The state holds the variables of the function, the number
  of requests launched so far, the files written, and a trace of what happened, in
  order: the start of a level with its depth and frontier, the launch of a fetch, the
  addition of a URL to \<^verbatim>\<open>visited\<close>, and the saving of its page. The state
  \<open>depth s + 1\<close> at the end of a level is \<^verbatim>\<open>depth += 1\<close>: nothing in the body of
  the loop changes the depth. The functions describe the runs in which neither the URL
  library nor the file system raises an exception, which would end the crawl.
\<close>

datatype event =
    Crawling int "string list"
  | Fetch nat string
  | Add string
  | Save string

record crawl_state =
  visited :: "string set"
  current_level :: "string list"
  next_level :: "string list"
  depth :: int
  next_task :: nat
  fs :: files
  trace :: "event list"

fun add_links :: "string list \<Rightarrow> crawl_state \<Rightarrow> crawl_state" where
  "add_links [] s = s"
| "add_links (link # rest) s =
     add_links rest
       (if link \<notin> visited s \<and> link \<notin> set (current_level s) \<and> link \<notin> set (next_level s)
        then s\<lparr>next_level := next_level s @ [link]\<rparr> else s)"

fun handle_results :: "env \<Rightarrow> string \<Rightarrow> string \<Rightarrow> page_result list \<Rightarrow> crawl_state \<Rightarrow> crawl_state" where
  "handle_results E base_url output_dir [] s = s"
| "handle_results E base_url output_dir (r # rs) s =
     handle_results E base_url output_dir rs
       (if url r \<in> visited s then s
        else add_links (filter_links E (links r) base_url)
               (s\<lparr>visited := insert (url r) (visited s),
                   fs := save_page E (url r) (markdown r) output_dir (fs s),
                   trace := trace s @ [Add (url r), Save (url r)]\<rparr>))"

definition crawl_level ::
  "env \<Rightarrow> string \<Rightarrow> string \<Rightarrow> limiter_handle \<Rightarrow> int \<Rightarrow> crawl_state \<Rightarrow> crawl_state" where
  "crawl_level E base_url output_dir limiter max_concurrency s =
     (let urls_to_scrape = filter (\<lambda>u. u \<notin> visited s) (current_level s);
          p = process_urls E limiter max_concurrency urls_to_scrape (next_task s);
          s1 = s\<lparr>next_level := [], next_task := next_id p,
                 trace := trace s @ [Crawling (depth s) (current_level s)]
                            @ map (\<lambda>t. Fetch (fst t) (snd t)) (launches p)\<rparr>;
          s2 = handle_results E base_url output_dir (results p) s1
      in s2\<lparr>current_level := next_level s2, depth := depth s + 1\<rparr>)"

function crawl_loop ::
  "env \<Rightarrow> string \<Rightarrow> string \<Rightarrow> int \<Rightarrow> limiter_handle \<Rightarrow> int \<Rightarrow> crawl_state \<Rightarrow> crawl_state" where
  "crawl_loop E base_url output_dir max_depth limiter max_concurrency s =
     (if current_level s \<noteq> [] \<and> depth s \<le> max_depth
      then crawl_loop E base_url output_dir max_depth limiter max_concurrency
             (crawl_level E base_url output_dir limiter max_concurrency s)
      else s)"
  by pat_completeness auto
termination
  by (relation "measure (\<lambda>(E, base_url, output_dir, max_depth, limiter, max_concurrency, s).
                  nat (max_depth + 1 - depth s))")
     (auto simp: crawl_level_def Let_def)

declare crawl_loop.simps [simp del]

definition crawl_init :: "string \<Rightarrow> crawl_state" where
  "crawl_init base_url =
     \<lparr>visited = {}, current_level = [base_url], next_level = [], depth = 0,
      next_task = 0, fs = [], trace = []\<rparr>"

definition crawl_website ::
  "env \<Rightarrow> string \<Rightarrow> string \<Rightarrow> int \<Rightarrow> limiter_handle \<Rightarrow> int \<Rightarrow> crawl_state" where
  "crawl_website E base_url output_dir max_depth limiter max_concurrency =
     crawl_loop E base_url output_dir max_depth limiter max_concurrency (crawl_init base_url)"

section \<open>What the trace says\<close>

text \<open>The URLs fetched, added to \<^verbatim>\<open>visited\<close> and saved, in the order of the
  trace, and the levels with their depths and frontiers.\<close>

definition fetched :: "event list \<Rightarrow> string list" where
  "fetched t = concat (map (\<lambda>e. case e of Fetch n u \<Rightarrow> [u] | _ \<Rightarrow> []) t)"

definition added :: "event list \<Rightarrow> string list" where
  "added t = concat (map (\<lambda>e. case e of Add u \<Rightarrow> [u] | _ \<Rightarrow> []) t)"

definition saved :: "event list \<Rightarrow> string list" where
  "saved t = concat (map (\<lambda>e. case e of Save u \<Rightarrow> [u] | _ \<Rightarrow> []) t)"

definition levels :: "event list \<Rightarrow> (int \<times> string list) list" where
  "levels t = concat (map (\<lambda>e. case e of Crawling d fr \<Rightarrow> [(d, fr)] | _ \<Rightarrow> []) t)"

text \<open>The events of a trace that are about one URL.\<close>

fun concerns :: "string \<Rightarrow> event \<Rightarrow> bool" where
  "concerns u (Crawling d fr) = False"
| "concerns u (Fetch n v) = (v = u)"
| "concerns u (Add v) = (v = u)"
| "concerns u (Save v) = (v = u)"

definition history :: "string \<Rightarrow> event list \<Rightarrow> event list" where
  "history u t = filter (concerns u) t"

text \<open>What the results of a level add to the trace and to the files, and the URLs
  and the pool of tasks of a level.\<close>

definition page_events :: "page_result list \<Rightarrow> event list" where
  "page_events rs = concat (map (\<lambda>r. [Add (url r), Save (url r)]) rs)"

definition page_writes :: "env \<Rightarrow> string \<Rightarrow> page_result list \<Rightarrow> files" where
  "page_writes E out rs =
     map (\<lambda>r. (save_file_path E (url r) out,
                ''# '' @ url r @ [CHR 0x0A, CHR 0x0A] @ markdown r)) rs"

definition level_urls :: "crawl_state \<Rightarrow> string list" where
  "level_urls s = filter (\<lambda>u. u \<notin> visited s) (current_level s)"

definition level_pool :: "env \<Rightarrow> limiter_handle \<Rightarrow> int \<Rightarrow> crawl_state \<Rightarrow> pool" where
  "level_pool E limiter mc s = process_urls E limiter mc (level_urls s) (next_task s)"

text \<open>
  What holds of the state at the head of the loop, as far as fetching and visiting go:
  the frontier has no URL twice and none that was visited, the visited URLs are those
  fetched, none was fetched twice, and the trace holds for every visited URL its
  fetch, its addition to \<^verbatim>\<open>visited\<close> and its saving, in this order and once each,
  and nothing for any other URL.
\<close>

definition dedup_inv :: "crawl_state \<Rightarrow> bool" where
  "dedup_inv s \<longleftrightarrow>
     distinct (current_level s)
     \<and> set (current_level s) \<inter> visited s = {}
     \<and> visited s = set (fetched (trace s))
     \<and> distinct (fetched (trace s))
     \<and> (\<forall>u. (u \<in> visited s \<and> (\<exists>n. history u (trace s) = [Fetch n u, Add u, Save u]))
            \<or> (u \<notin> visited s \<and> history u (trace s) = []))"


text \<open>
  Where a URL of a frontier comes from: it is the seed, or it is an \<^verbatim>\<open>href\<close> of a
  page fetched before, joined to the seed URL, and on the host of the seed.
\<close>

definition found_on :: "env \<Rightarrow> limiter_handle \<Rightarrow> string \<Rightarrow> event list \<Rightarrow> string \<Rightarrow> bool" where
  "found_on E limiter b t u \<longleftrightarrow>
     (\<exists>n p h. Fetch n p \<in> set t \<and> h \<in> set (links (ray_get E limiter (n, p)))
        \<and> u = urljoin E b h \<and> netloc (urlparse E u) = netloc (urlparse E b))"

definition link_inv :: "env \<Rightarrow> limiter_handle \<Rightarrow> string \<Rightarrow> crawl_state \<Rightarrow> bool" where
  "link_inv E limiter b s \<longleftrightarrow>
     (\<forall>u \<in> set (current_level s). u = b \<or> found_on E limiter b (trace s) u)
     \<and> (\<forall>(d, fr) \<in> set (levels (trace s)). \<forall>u \<in> set fr. u = b \<or> found_on E limiter b (trace s) u)"



section \<open>A small site\<close>

text \<open>
  A site of three pages on the host \<open>h\<close>, used to run the definitions: the root
  links to two pages that differ in their query only, and to a page on another host;
  the second page links back to the root and to a page that does not exist. Every
  \<^verbatim>\<open>href\<close> is an absolute URL, which \<^verbatim>\<open>urljoin\<close> returns as it is. The
  scheduler of \<open>demo_env k\<close> always reports the task at position \<open>k\<close> of the pool
  (modulo its size).
\<close>

definition site_get :: "nat \<Rightarrow> string \<Rightarrow> exn + response" where
  "site_get n u =
     (if u = ''http://h/'' then Inr \<lparr>status_code = 200, resp_text = ''root''\<rparr>
      else if u = ''http://h/a?x=1'' then Inr \<lparr>status_code = 200, resp_text = ''one''\<rparr>
      else if u = ''http://h/a?x=2'' then Inr \<lparr>status_code = 200, resp_text = ''two''\<rparr>
      else Inr \<lparr>status_code = 404, resp_text = ''''\<rparr>)"

definition site_hrefs :: "string \<Rightarrow> exn + string list" where
  "site_hrefs html =
     (if html = ''root'' then Inr [''http://h/a?x=1'', ''http://h/a?x=2'', ''http://other/z'']
      else if html = ''two'' then Inr [''http://h/'', ''http://h/b'']
      else Inr [])"

definition demo_env :: "nat \<Rightarrow> env" where
  "demo_env k =
     \<lparr>urlparse = py_urlparse, urljoin = (\<lambda>base href. href), requests_get = site_get,
      markdownify = Inr, find_hrefs = site_hrefs, ray_wait = (\<lambda>ts. k)\<rparr>"



section \<open>Saving a page: the path and the content\<close>



lemma sanitize_filename_length: "length (sanitize_filename n) = length n"
  by (simp add: sanitize_filename_def)






lemma save_file_path_cong:
  "urlparse E u = urlparse E' u \<Longrightarrow> save_file_path E u out = save_file_path E' u out"
  by (simp add: save_file_path_def path_parts_def)

lemma demo_fragment_url:
  "save_file_path (demo_env 0) ''https://docs.example.com/stream/deploy-cloud#pricing'' ''out''
     = ''out/docs.example.com/stream/deploy-cloud_pricing.md''"
  by code_simp

text \<open>
  Claim C3. Saving the page of \<^verbatim>\<open>https://docs.example.com/stream/deploy-cloud#pricing\<close>
  under the output directory \<open>out\<close> is said to write
  \<^verbatim>\<open>out/docs.example.com/stream/deploy-cloud/deploy-cloud_pricing.md\<close>, as the
  docstring of \<^verbatim>\<open>save_page\<close> says too. The code takes the last path segment as
  the name of the file only, not as a directory: the file written is
  \<^verbatim>\<open>out/docs.example.com/stream/deploy-cloud_pricing.md\<close>.
\<close>

theorem save_page_fragment_url:
  "save_page (E\<lparr>urlparse := py_urlparse\<rparr>)
      ''https://docs.example.com/stream/deploy-cloud#pricing'' md ''out'' []
    = [(''out/docs.example.com/stream/deploy-cloud_pricing.md'',
        ''# https://docs.example.com/stream/deploy-cloud#pricing'' @ [CHR 0x0A, CHR 0x0A] @ md)]
   \<and> save_file_path (E\<lparr>urlparse := py_urlparse\<rparr>)
      ''https://docs.example.com/stream/deploy-cloud#pricing'' ''out''
    \<noteq> ''out/docs.example.com/stream/deploy-cloud/deploy-cloud_pricing.md''"
proof -
  have "save_file_path (E\<lparr>urlparse := py_urlparse\<rparr>)
          ''https://docs.example.com/stream/deploy-cloud#pricing'' ''out''
        = ''out/docs.example.com/stream/deploy-cloud_pricing.md''"
    using save_file_path_cong[of "E\<lparr>urlparse := py_urlparse\<rparr>" _ "demo_env 0" "''out''"]
      demo_fragment_url
    by (simp add: demo_env_def)
  then show ?thesis
    by (simp add: save_page_def)
qed




section \<open>The fetch worker never raises\<close>

lemma try_scrape_url: "try_scrape E limiter n u = Inr r \<Longrightarrow> url r = u"
  by (auto simp: try_scrape_def split: sum.splits option.splits)

lemma scrape_page_url: "url (fst (scrape_page E limiter n u)) = u"
  by (auto simp: scrape_page_def dest: try_scrape_url split: sum.splits)

lemma ray_get_url: "url (ray_get E limiter t) = snd t"
  by (simp add: ray_get_def scrape_page_url)





section \<open>The rate limiter spaces the grants\<close>

lemma acquire_delay: "delay (fst (acquire rl now later)) = delay rl"
  by (simp add: acquire_def Let_def)

lemma grants_Cons:
  "grants rl ((now, later) # cs)
     = last_request (fst (acquire rl now later)) # grants (fst (acquire rl now later)) cs"
  by (simp add: grants_def)

lemma spaced_from:
  "clock_ok rl cs \<Longrightarrow> last_request rl \<noteq> 0 \<Longrightarrow>
   spaced (delay rl) (last_request rl # grants rl cs)"
proof (induction cs arbitrary: rl)
  case Nil
  then show ?case by (simp add: grants_def)
next
  case (Cons c cs)
  obtain now later where c: "c = (now, later)" by (cases c)
  define rl' where "rl' = fst (acquire rl now later)"
  have ok: "0 < now" "last_request rl \<le> now"
    "now + (case snd (acquire rl now later) of None \<Rightarrow> 0 | Some d \<Rightarrow> d) \<le> later"
    "clock_ok rl' cs"
    using Cons.prems(1) by (simp_all add: c rl'_def)
  have rl': "last_request rl' = later" "delay rl' = delay rl"
    using Cons.prems(2) by (simp_all add: rl'_def acquire_def Let_def)
  have step: "last_request rl + delay rl \<le> later"
    using ok(2,3) Cons.prems(2) by (auto simp: acquire_def Let_def split: if_splits)
  have "later \<noteq> 0"
    using ok(1,3) Cons.prems(2) by (auto simp: acquire_def Let_def split: if_splits)
  then have "spaced (delay rl') (last_request rl' # grants rl' cs)"
    using Cons.IH[OF ok(4)] rl' by simp
  then show ?case
    using step rl' by (simp add: c grants_Cons rl'_def[symmetric])
qed

text \<open>
  Claim C6. For a rate limiter with delay \<open>d\<close> and any sequence of calls of
  \<^verbatim>\<open>acquire\<close> (the actor runs them one after the other), the first call does not
  sleep, and two consecutive grants are at least \<open>d\<close> seconds apart. Time is taken
  as exact, and the clock as described by \<open>clock_ok\<close>.
\<close>

theorem rate_limiter_spacing:
  assumes "clock_ok (rate_limiter_init d) cs"
  shows "spaced d (grants (rate_limiter_init d) cs)
       \<and> (\<forall>r \<in> set (take 1 (acquire_all (rate_limiter_init d) cs)). snd r = None)"
proof (cases cs)
  case Nil
  then show ?thesis by (simp add: grants_def)
next
  case (Cons c cs')
  obtain now later where c: "c = (now, later)" by (cases c)
  define rl' where "rl' = fst (acquire (rate_limiter_init d) now later)"
  have rl': "last_request rl' = now" "delay rl' = d"
    by (simp_all add: rl'_def acquire_def rate_limiter_init_def)
  have "0 < now" "clock_ok rl' cs'"
    using assms by (simp_all add: Cons c rl'_def)
  then have "spaced (delay rl') (last_request rl' # grants rl' cs')"
    using rl' by (intro spaced_from) auto
  then have "spaced d (grants (rate_limiter_init d) cs)"
    using rl' by (simp add: Cons c grants_Cons rl'_def[symmetric])
  moreover have "snd (acquire (rate_limiter_init d) now later) = None"
    by (simp add: acquire_def rate_limiter_init_def)
  ultimately show ?thesis
    by (simp add: Cons c)
qed

theorem rate_limiter_spacing_witness:
  "clock_ok (rate_limiter_init 1) [(100, 100), (100.2, 101), (105, 105.5)]
   \<and> grants (rate_limiter_init 1) [(100, 100), (100.2, 101), (105, 105.5)] = [100, 101, 105.5]
   \<and> spaced 1 (grants (rate_limiter_init 1) [(100, 100), (100.2, 101), (105, 105.5)])"
proof -
  have ok: "clock_ok (rate_limiter_init 1) [(100, 100), (100.2, 101), (105, 105.5)]"
    by (simp add: rate_limiter_init_def acquire_def)
  have "grants (rate_limiter_init 1) [(100, 100), (100.2, 101), (105, 105.5)] = [100, 101, 105.5]"
    by (simp add: rate_limiter_init_def acquire_def grants_def)
  then show ?thesis
    using ok rate_limiter_spacing[OF ok] by simp
qed

section \<open>The dispatcher returns one result for each URL\<close>

lemma mset_without_nth:
  "i < length ts \<Longrightarrow> mset (map g (take i ts @ drop (Suc i) ts)) + {#g (ts ! i)#} = mset (map g ts)"
proof -
  assume "i < length ts"
  then have "ts = take i ts @ ts ! i # drop (Suc i) ts"
    by (rule id_take_nth_drop)
  then have "mset (map g ts) = mset (map g (take i ts @ ts ! i # drop (Suc i) ts))"
    by simp
  then show ?thesis by simp
qed

text \<open>Every task launched is in the pool or has delivered its result.\<close>

lemma process_loop_accounts:
  "mset (results p) + mset (map (ray_get E limiter) (tasks p))
     = mset (map (ray_get E limiter) (launches p)) \<Longrightarrow>
   mset (results (process_loop E limiter mc us p))
     + mset (map (ray_get E limiter) (tasks (process_loop E limiter mc us p)))
     = mset (map (ray_get E limiter) (launches (process_loop E limiter mc us p)))"
proof (induction us arbitrary: p)
  case Nil
  then show ?case by simp
next
  case (Cons u us)
  define ts where "ts = tasks p @ [(next_id p, u)]"
  define i where "i = ray_wait E ts mod length ts"
  have i: "i < length ts"
    by (simp add: i_def ts_def)
  show ?case
  proof (cases "mc \<le> int (length ts)")
    case True
    define p2 where "p2 = p\<lparr>next_id := Suc (next_id p),
        launches := launches p @ [(next_id p, u)], outstanding := outstanding p @ [length ts],
        tasks := take i ts @ drop (Suc i) ts,
        results := results p @ [ray_get E limiter (ts ! i)]\<rparr>"
    have step: "process_loop E limiter mc (u # us) p = process_loop E limiter mc us p2"
      using True by (simp add: Let_def ts_def[symmetric] i_def[symmetric] p2_def)
    have "mset (results p2) + mset (map (ray_get E limiter) (tasks p2))
        = mset (results p) + mset (map (ray_get E limiter) ts)"
      using mset_without_nth[OF i, of "ray_get E limiter"] by (simp add: p2_def)
    also have "\<dots> = mset (map (ray_get E limiter) (launches p2))"
      using Cons.prems by (simp add: p2_def ts_def)
    finally show ?thesis
      unfolding step by (rule Cons.IH)
  next
    case False
    define p1 where "p1 = p\<lparr>tasks := ts, next_id := Suc (next_id p),
        launches := launches p @ [(next_id p, u)], outstanding := outstanding p @ [length ts]\<rparr>"
    have step: "process_loop E limiter mc (u # us) p = process_loop E limiter mc us p1"
      using False by (simp add: Let_def ts_def[symmetric] p1_def)
    have "mset (results p1) + mset (map (ray_get E limiter) (tasks p1))
        = mset (map (ray_get E limiter) (launches p1))"
      using Cons.prems by (simp add: p1_def ts_def)
    then show ?thesis
      unfolding step by (rule Cons.IH)
  qed
qed

lemma process_loop_launches:
  "map snd (launches (process_loop E limiter mc us p)) = map snd (launches p) @ us"
  by (induction us arbitrary: p) (simp_all add: Let_def)

lemma process_loop_next_id:
  "next_id (process_loop E limiter mc us p) = next_id p + length us"
  by (induction us arbitrary: p) (simp_all add: Let_def)

lemma process_loop_bound:
  "1 \<le> mc \<Longrightarrow> int (length (tasks p)) < mc \<Longrightarrow> \<forall>k \<in> set (outstanding p). int k \<le> mc \<Longrightarrow>
   \<forall>k \<in> set (outstanding (process_loop E limiter mc us p)). int k \<le> mc"
proof (induction us arbitrary: p)
  case Nil
  then show ?case by simp
next
  case (Cons u us)
  define ts where "ts = tasks p @ [(next_id p, u)]"
  define i where "i = ray_wait E ts mod length ts"
  have i: "i < length ts"
    by (simp add: i_def ts_def)
  have len: "int (length ts) \<le> mc"
    using Cons.prems(2) by (simp add: ts_def)
  show ?case
  proof (cases "mc \<le> int (length ts)")
    case True
    define p2 where "p2 = p\<lparr>next_id := Suc (next_id p),
        launches := launches p @ [(next_id p, u)], outstanding := outstanding p @ [length ts],
        tasks := take i ts @ drop (Suc i) ts,
        results := results p @ [ray_get E limiter (ts ! i)]\<rparr>"
    have step: "process_loop E limiter mc (u # us) p = process_loop E limiter mc us p2"
      using True by (simp add: Let_def ts_def[symmetric] i_def[symmetric] p2_def)
    have "int (length (tasks p2)) < mc"
      using i len by (simp add: p2_def min_def)
    moreover have "\<forall>k \<in> set (outstanding p2). int k \<le> mc"
      using Cons.prems(3) len by (simp add: p2_def)
    ultimately show ?thesis
      unfolding step using Cons.prems(1) by (intro Cons.IH)
  next
    case False
    define p1 where "p1 = p\<lparr>tasks := ts, next_id := Suc (next_id p),
        launches := launches p @ [(next_id p, u)], outstanding := outstanding p @ [length ts]\<rparr>"
    have step: "process_loop E limiter mc (u # us) p = process_loop E limiter mc us p1"
      using False by (simp add: Let_def ts_def[symmetric] p1_def)
    have "int (length (tasks p1)) < mc"
      using False by (simp add: p1_def)
    moreover have "\<forall>k \<in> set (outstanding p1). int k \<le> mc"
      using Cons.prems(3) len by (simp add: p1_def)
    ultimately show ?thesis
      unfolding step using Cons.prems(1) by (intro Cons.IH)
  qed
qed

lemma process_urls_results:
  "mset (results (process_urls E limiter mc us n0))
     = mset (map (ray_get E limiter) (launches (process_urls E limiter mc us n0)))"
  using process_loop_accounts[of "\<lparr>tasks = [], results = [], next_id = n0, launches = [],
      outstanding = []\<rparr>" E limiter mc us]
  by (simp add: process_urls_def Let_def)

lemma process_urls_launches:
  "map snd (launches (process_urls E limiter mc us n0)) = us"
  by (simp add: process_urls_def Let_def process_loop_launches)

lemma process_urls_next_id:
  "next_id (process_urls E limiter mc us n0) = n0 + length us"
  by (simp add: process_urls_def Let_def process_loop_next_id)

lemma process_urls_urls:
  "mset (map url (results (process_urls E limiter mc us n0))) = mset us"
proof -
  have "mset (map url (results (process_urls E limiter mc us n0)))
      = image_mset url (mset (results (process_urls E limiter mc us n0)))"
    by simp
  also have "\<dots> = mset (map (\<lambda>t. url (ray_get E limiter t)) (launches (process_urls E limiter mc us n0)))"
    unfolding process_urls_results by (simp add: multiset.map_comp comp_def)
  also have "\<dots> = mset (map snd (launches (process_urls E limiter mc us n0)))"
    by (simp add: ray_get_url)
  finally show ?thesis
    by (simp add: process_urls_launches)
qed

lemma demo_out_of_order:
  "map url (results (process_urls (demo_env 1) None 2 [''http://h/a?x=1'', ''http://h/a?x=2''] 0))
     = [''http://h/a?x=2'', ''http://h/a?x=1'']"
  by code_simp

text \<open>
  Claim C7. For every list of URLs and every \<^verbatim>\<open>max_concurrency\<close> of at least 1,
  \<^verbatim>\<open>process_urls\<close> returns exactly one result for each URL given (the URLs of the
  results are those given, as multisets), at no point are there more than
  \<^verbatim>\<open>max_concurrency\<close> tasks in the pool, and the results need not be in the order
  of the URLs.
\<close>

theorem process_urls_one_result_each:
  assumes "1 \<le> mc"
  shows "mset (map url (results (process_urls E limiter mc us n0))) = mset us
       \<and> length (results (process_urls E limiter mc us n0)) = length us
       \<and> (\<forall>k \<in> set (outstanding (process_urls E limiter mc us n0)). int k \<le> mc)
       \<and> (\<exists>E' us'. map url (results (process_urls E' None 2 us' 0)) \<noteq> us')"
proof -
  have "length (results (process_urls E limiter mc us n0)) = length us"
    using process_urls_urls[of E limiter mc us n0] by (metis length_map size_mset)
  moreover have "\<forall>k \<in> set (outstanding (process_urls E limiter mc us n0)). int k \<le> mc"
    using process_loop_bound[of mc "\<lparr>tasks = [], results = [], next_id = n0, launches = [],
      outstanding = []\<rparr>" E limiter us] assms
    by (simp add: process_urls_def Let_def)
  moreover have "\<exists>E' us'. map url (results (process_urls E' None 2 us' 0)) \<noteq> us'"
  proof (intro exI)
    show "map url (results (process_urls (demo_env 1) None 2
            [''http://h/a?x=1'', ''http://h/a?x=2''] 0)) \<noteq> [''http://h/a?x=1'', ''http://h/a?x=2'']"
      unfolding demo_out_of_order by simp
  qed
  ultimately show ?thesis
    using process_urls_urls by blast
qed

lemma demo_pool_sizes:
  "outstanding (process_urls (demo_env 1) None 2 [''http://h/a?x=1'', ''http://h/a?x=2''] 0) = [1, 2]"
  by code_simp

theorem process_urls_one_result_each_witness:
  "(1::int) \<le> 2
   \<and> mset (map url (results (process_urls (demo_env 1) None 2
                               [''http://h/a?x=1'', ''http://h/a?x=2''] 0)))
       = mset [''http://h/a?x=1'', ''http://h/a?x=2'']
   \<and> outstanding (process_urls (demo_env 1) None 2 [''http://h/a?x=1'', ''http://h/a?x=2''] 0)
       = [1, 2]"
  using process_urls_one_result_each[of 2 "demo_env 1" None
      "[''http://h/a?x=1'', ''http://h/a?x=2'']" 0] demo_pool_sizes
  by simp

section \<open>The link filter resolves against the seed\<close>

lemma filter_links_loop_eq:
  "filter_links_loop E b d ls acc
     = acc @ filter (\<lambda>a. netloc (urlparse E a) = d) (map (urljoin E b) ls)"
  by (induction ls arbitrary: acc) (simp_all add: Let_def)

lemma filter_links_eq:
  "filter_links E ls b
     = filter (\<lambda>a. netloc (urlparse E a) = netloc (urlparse E b)) (map (urljoin E b) ls)"
  by (simp add: filter_links_def filter_links_loop_eq)

section \<open>One level of the crawl\<close>

lemma add_links_fields [simp]:
  "visited (add_links ls s) = visited s"
  "current_level (add_links ls s) = current_level s"
  "depth (add_links ls s) = depth s"
  "next_task (add_links ls s) = next_task s"
  "fs (add_links ls s) = fs s"
  "trace (add_links ls s) = trace s"
  by (induction ls arbitrary: s) simp_all

lemma add_links_next:
  "set (next_level (add_links ls s))
     = set (next_level s) \<union> (set ls - visited s - set (current_level s))"
  by (induction ls arbitrary: s) auto

lemma add_links_distinct:
  "distinct (next_level s) \<Longrightarrow> distinct (next_level (add_links ls s))"
  by (induction ls arbitrary: s) simp_all

lemma handle_results_fields [simp]:
  "current_level (handle_results E b out rs s) = current_level s"
  "depth (handle_results E b out rs s) = depth s"
  "next_task (handle_results E b out rs s) = next_task s"
  by (induction rs arbitrary: s) simp_all

lemma handle_results_distinct:
  "distinct (next_level s) \<Longrightarrow> distinct (next_level (handle_results E b out rs s))"
  by (induction rs arbitrary: s) (simp_all add: add_links_distinct)

lemma handle_results_visited:
  "visited (handle_results E b out rs s) = visited s \<union> url ` set rs"
  by (induction rs arbitrary: s) auto

lemma handle_results_effects:
  "distinct (map url rs) \<Longrightarrow> url ` set rs \<inter> visited s = {} \<Longrightarrow>
   trace (handle_results E b out rs s) = trace s @ page_events rs
   \<and> fs (handle_results E b out rs s) = fs s @ page_writes E out rs"
proof (induction rs arbitrary: s)
  case Nil
  then show ?case by (simp add: page_events_def page_writes_def)
next
  case (Cons r rs)
  define s1 where "s1 = add_links (filter_links E (links r) b)
               (s\<lparr>visited := insert (url r) (visited s),
                   fs := save_page E (url r) (markdown r) out (fs s),
                   trace := trace s @ [Add (url r), Save (url r)]\<rparr>)"
  have step: "handle_results E b out (r # rs) s = handle_results E b out rs s1"
    using Cons.prems(2) by (simp add: s1_def)
  have "url ` set rs \<inter> visited s1 = {}"
    using Cons.prems by (auto simp: s1_def)
  then have "trace (handle_results E b out rs s1) = trace s1 @ page_events rs
      \<and> fs (handle_results E b out rs s1) = fs s1 @ page_writes E out rs"
    using Cons.prems(1) by (intro Cons.IH) simp_all
  then show ?case
    unfolding step by (simp add: s1_def page_events_def page_writes_def save_page_def)
qed

lemma handle_results_next:
  "url ` set rs \<subseteq> set (current_level s) \<Longrightarrow>
   distinct (map url rs) \<Longrightarrow> url ` set rs \<inter> visited s = {} \<Longrightarrow>
   set (next_level (handle_results E b out rs s))
     = set (next_level s)
       \<union> ((\<Union>r \<in> set rs. set (filter_links E (links r) b)) - visited s - set (current_level s))"
proof (induction rs arbitrary: s)
  case Nil
  then show ?case by simp
next
  case (Cons r rs)
  define s1 where "s1 = add_links (filter_links E (links r) b)
               (s\<lparr>visited := insert (url r) (visited s),
                   fs := save_page E (url r) (markdown r) out (fs s),
                   trace := trace s @ [Add (url r), Save (url r)]\<rparr>)"
  have step: "handle_results E b out (r # rs) s = handle_results E b out rs s1"
    using Cons.prems(3) by (simp add: s1_def)
  have s1: "visited s1 = insert (url r) (visited s)" "current_level s1 = current_level s"
    "set (next_level s1) = set (next_level s)
       \<union> (set (filter_links E (links r) b) - insert (url r) (visited s) - set (current_level s))"
    by (simp_all add: s1_def add_links_next)
  have r: "url r \<in> set (current_level s)"
    using Cons.prems(1) by simp
  have "set (next_level (handle_results E b out rs s1))
     = set (next_level s1)
       \<union> ((\<Union>r \<in> set rs. set (filter_links E (links r) b)) - visited s1 - set (current_level s1))"
    using Cons.prems by (intro Cons.IH) (auto simp: s1)
  then show ?case
    unfolding step using r by (auto simp: s1)
qed

text \<open>The results of a level are those of the URLs launched, each once.\<close>

lemma process_urls_set:
  "set (results (process_urls E limiter mc us n0))
     = ray_get E limiter ` set (launches (process_urls E limiter mc us n0))"
  using process_urls_results[of E limiter mc us n0] by (metis set_mset_mset set_map)

lemma process_urls_distinct:
  "distinct us \<Longrightarrow> distinct (map url (results (process_urls E limiter mc us n0)))"
  using process_urls_urls[of E limiter mc us n0] by (metis mset_eq_imp_distinct_iff)

lemma process_urls_url_set:
  "url ` set (results (process_urls E limiter mc us n0)) = set us"
  using process_urls_urls[of E limiter mc us n0] by (metis set_mset_mset set_map)

lemma crawl_level_depth [simp]: "depth (crawl_level E b out limiter mc s) = depth s + 1"
  by (simp add: crawl_level_def Let_def)

lemma crawl_level_visited:
  "visited (crawl_level E b out limiter mc s) = visited s \<union> set (current_level s)"
  by (auto simp: crawl_level_def Let_def handle_results_visited process_urls_url_set)

lemma crawl_level_effects:
  assumes "distinct (current_level s)"
  shows "trace (crawl_level E b out limiter mc s)
           = trace s @ [Crawling (depth s) (current_level s)]
               @ map (\<lambda>t. Fetch (fst t) (snd t)) (launches (level_pool E limiter mc s))
               @ page_events (results (level_pool E limiter mc s))"
    and "fs (crawl_level E b out limiter mc s)
           = fs s @ page_writes E out (results (level_pool E limiter mc s))"
    and "distinct (current_level (crawl_level E b out limiter mc s))"
    and "set (current_level (crawl_level E b out limiter mc s))
           = (\<Union>r \<in> set (results (level_pool E limiter mc s)). set (filter_links E (links r) b))
             - visited s - set (current_level s)"
proof -
  define p where "p = level_pool E limiter mc s"
  define s1 where "s1 = s\<lparr>next_level := [], next_task := next_id p,
                 trace := trace s @ [Crawling (depth s) (current_level s)]
                            @ map (\<lambda>t. Fetch (fst t) (snd t)) (launches p)\<rparr>"
  have lvl: "crawl_level E b out limiter mc s
      = (handle_results E b out (results p) s1)
          \<lparr>current_level := next_level (handle_results E b out (results p) s1),
           depth := depth s + 1\<rparr>"
    by (simp add: crawl_level_def Let_def p_def s1_def level_pool_def level_urls_def)
  have us: "distinct (level_urls s)" "set (level_urls s) \<inter> visited s = {}"
    "set (level_urls s) \<subseteq> set (current_level s)"
    using assms by (auto simp: level_urls_def)
  have d: "distinct (map url (results p))"
    unfolding p_def level_pool_def using us(1) by (rule process_urls_distinct)
  have u: "url ` set (results p) = set (level_urls s)"
    unfolding p_def level_pool_def by (rule process_urls_url_set)
  have pre: "url ` set (results p) \<inter> visited s1 = {}" "url ` set (results p) \<subseteq> set (current_level s1)"
    using us u by (auto simp: s1_def)
  show "trace (crawl_level E b out limiter mc s)
           = trace s @ [Crawling (depth s) (current_level s)]
               @ map (\<lambda>t. Fetch (fst t) (snd t)) (launches (level_pool E limiter mc s))
               @ page_events (results (level_pool E limiter mc s))"
    using handle_results_effects[OF d pre(1), of E b out]
    by (simp add: lvl s1_def p_def)
  show "fs (crawl_level E b out limiter mc s)
           = fs s @ page_writes E out (results (level_pool E limiter mc s))"
    using handle_results_effects[OF d pre(1), of E b out]
    by (simp add: lvl s1_def p_def)
  show "distinct (current_level (crawl_level E b out limiter mc s))"
    using handle_results_distinct[of s1 E b out "results p"] by (simp add: lvl s1_def)
  show "set (current_level (crawl_level E b out limiter mc s))
           = (\<Union>r \<in> set (results (level_pool E limiter mc s)). set (filter_links E (links r) b))
             - visited s - set (current_level s)"
    using handle_results_next[OF pre(2) d pre(1), of E b out]
    by (simp add: lvl s1_def p_def)
qed

lemma level_pool_launches:
  "map snd (launches (level_pool E limiter mc s)) = level_urls s"
  by (simp add: level_pool_def process_urls_launches)

lemma level_pool_url_set:
  "url ` set (results (level_pool E limiter mc s)) = set (level_urls s)"
  unfolding level_pool_def by (rule process_urls_url_set)

lemma level_pool_results:
  "set (results (level_pool E limiter mc s))
     = ray_get E limiter ` set (launches (level_pool E limiter mc s))"
  unfolding level_pool_def by (rule process_urls_set)

section \<open>The loop\<close>

lemma crawl_loop_step:
  "current_level s \<noteq> [] \<Longrightarrow> depth s \<le> md \<Longrightarrow>
   crawl_loop E b out md limiter mc s
     = crawl_loop E b out md limiter mc (crawl_level E b out limiter mc s)"
  by (subst crawl_loop.simps) simp

lemma crawl_loop_done:
  "current_level s = [] \<or> md < depth s \<Longrightarrow> crawl_loop E b out md limiter mc s = s"
  by (subst crawl_loop.simps) auto

lemma crawl_loop_invariant:
  assumes "I s"
    and "\<And>s. I s \<Longrightarrow> current_level s \<noteq> [] \<Longrightarrow> depth s \<le> md
           \<Longrightarrow> I (crawl_level E b out limiter mc s)"
  shows "I (crawl_loop E b out md limiter mc s)"
  using assms(1)
proof (induction "nat (md + 1 - depth s)" arbitrary: s rule: less_induct)
  case less
  show ?case
  proof (cases "current_level s \<noteq> [] \<and> depth s \<le> md")
    case True
    have "I (crawl_level E b out limiter mc s)"
      using assms(2) less.prems True by blast
    moreover have "nat (md + 1 - depth (crawl_level E b out limiter mc s)) < nat (md + 1 - depth s)"
      using True by simp
    ultimately have "I (crawl_loop E b out md limiter mc (crawl_level E b out limiter mc s))"
      using less.hyps by blast
    then show ?thesis
      using True by (simp add: crawl_loop_step)
  next
    case False
    then have "crawl_loop E b out md limiter mc s = s"
      by (intro crawl_loop_done) auto
    then show ?thesis
      using less.prems by simp
  qed
qed


section \<open>Reading the trace\<close>

lemma fetched_append [simp]: "fetched (t @ t') = fetched t @ fetched t'"
  by (simp add: fetched_def)

lemma added_append [simp]: "added (t @ t') = added t @ added t'"
  by (simp add: added_def)

lemma saved_append [simp]: "saved (t @ t') = saved t @ saved t'"
  by (simp add: saved_def)

lemma levels_append [simp]: "levels (t @ t') = levels t @ levels t'"
  by (simp add: levels_def)

lemma history_append [simp]: "history u (t @ t') = history u t @ history u t'"
  by (simp add: history_def)

lemma trace_Nil [simp]:
  "fetched [] = []" "added [] = []" "saved [] = []" "levels [] = []" "history u [] = []"
  by (simp_all add: fetched_def added_def saved_def levels_def history_def)

lemma trace_Crawling [simp]:
  "fetched (Crawling d fr # t) = fetched t" "added (Crawling d fr # t) = added t"
  "saved (Crawling d fr # t) = saved t" "levels (Crawling d fr # t) = (d, fr) # levels t"
  "history u (Crawling d fr # t) = history u t"
  by (simp_all add: fetched_def added_def saved_def levels_def history_def)

lemma trace_fetches [simp]:
  "fetched (map (\<lambda>t. Fetch (fst t) (snd t)) L) = map snd L"
  "added (map (\<lambda>t. Fetch (fst t) (snd t)) L) = []"
  "saved (map (\<lambda>t. Fetch (fst t) (snd t)) L) = []"
  "levels (map (\<lambda>t. Fetch (fst t) (snd t)) L) = []"
  by (induction L) (simp_all add: fetched_def added_def saved_def levels_def)

lemma trace_page_events [simp]:
  "fetched (page_events rs) = []"
  "added (page_events rs) = map url rs"
  "saved (page_events rs) = map url rs"
  "levels (page_events rs) = []"
  by (induction rs) (simp_all add: fetched_def added_def saved_def levels_def page_events_def)

lemma history_fetches_none:
  "u \<notin> snd ` set L \<Longrightarrow> history u (map (\<lambda>t. Fetch (fst t) (snd t)) L) = []"
  by (induction L) (auto simp: history_def)

lemma history_fetches_one:
  "distinct (map snd L) \<Longrightarrow> u \<in> snd ` set L \<Longrightarrow>
   \<exists>n. history u (map (\<lambda>t. Fetch (fst t) (snd t)) L) = [Fetch n u]"
proof (induction L)
  case Nil
  then show ?case by simp
next
  case (Cons t L)
  show ?case
  proof (cases "snd t = u")
    case True
    then have "u \<notin> snd ` set L"
      using Cons.prems(1) by auto
    then have "history u (map (\<lambda>t. Fetch (fst t) (snd t)) L) = []"
      by (rule history_fetches_none)
    then have "history u (map (\<lambda>t. Fetch (fst t) (snd t)) (t # L)) = [Fetch (fst t) u]"
      using True by (simp add: history_def)
    then show ?thesis by blast
  next
    case False
    then have "\<exists>n. history u (map (\<lambda>t. Fetch (fst t) (snd t)) L) = [Fetch n u]"
      using Cons by auto
    then show ?thesis
      using False by (simp add: history_def)
  qed
qed

lemma history_pages_none:
  "u \<notin> url ` set rs \<Longrightarrow> history u (page_events rs) = []"
  by (induction rs) (auto simp: history_def page_events_def)

lemma history_pages_one:
  "distinct (map url rs) \<Longrightarrow> u \<in> url ` set rs \<Longrightarrow> history u (page_events rs) = [Add u, Save u]"
proof (induction rs)
  case Nil
  then show ?case by simp
next
  case (Cons r rs)
  show ?case
  proof (cases "url r = u")
    case True
    then have "u \<notin> url ` set rs"
      using Cons.prems(1) by auto
    then have "history u (page_events rs) = []"
      by (rule history_pages_none)
    then show ?thesis
      using True by (simp add: history_def page_events_def)
  next
    case False
    then have "history u (page_events rs) = [Add u, Save u]"
      using Cons by auto
    then show ?thesis
      using False by (simp add: history_def page_events_def)
  qed
qed

section \<open>No URL is fetched twice\<close>

lemma dedup_inv_init: "dedup_inv (crawl_init b)"
  by (simp add: dedup_inv_def crawl_init_def)

lemma level_urls_all:
  "set (current_level s) \<inter> visited s = {} \<Longrightarrow> level_urls s = current_level s"
  by (auto simp: level_urls_def filter_id_conv)

lemma dedup_inv_level:
  assumes "dedup_inv s"
  shows "dedup_inv (crawl_level E b out limiter mc s)"
proof -
  define s' where "s' = crawl_level E b out limiter mc s"
  define L where "L = launches (level_pool E limiter mc s)"
  define R where "R = results (level_pool E limiter mc s)"
  have inv: "distinct (current_level s)" "set (current_level s) \<inter> visited s = {}"
    "visited s = set (fetched (trace s))" "distinct (fetched (trace s))"
    using assms unfolding dedup_inv_def by blast+
  have us: "level_urls s = current_level s"
    using inv(2) by (rule level_urls_all)
  have L: "map snd L = current_level s"
    by (simp add: L_def level_pool_launches us)
  have R: "url ` set R = set (current_level s)" "distinct (map url R)"
  proof -
    show "url ` set R = set (current_level s)"
      unfolding R_def level_pool_url_set us by (rule refl)
    show "distinct (map url R)"
      unfolding R_def level_pool_def us using inv(1) by (rule process_urls_distinct)
  qed
  have t: "trace s' = trace s @ [Crawling (depth s) (current_level s)]
               @ map (\<lambda>t. Fetch (fst t) (snd t)) L @ page_events R"
    using crawl_level_effects(1)[OF inv(1)] by (simp add: s'_def L_def R_def)
  have v: "visited s' = visited s \<union> set (current_level s)"
    by (simp add: s'_def crawl_level_visited)
  have c: "distinct (current_level s')"
    "set (current_level s') \<inter> (visited s \<union> set (current_level s)) = {}"
    using crawl_level_effects(3,4)[OF inv(1), of E b out limiter mc] by (auto simp: s'_def)
  have f: "fetched (trace s') = fetched (trace s) @ current_level s"
    by (simp add: t L)
  have h: "(u \<in> visited s' \<and> (\<exists>n. history u (trace s') = [Fetch n u, Add u, Save u]))
            \<or> (u \<notin> visited s' \<and> history u (trace s') = [])" for u
  proof (cases "u \<in> set (current_level s)")
    case True
    then have "u \<notin> visited s"
      using inv(2) by auto
    then have "history u (trace s) = []"
      using assms by (auto simp: dedup_inv_def)
    moreover obtain n where "history u (map (\<lambda>t. Fetch (fst t) (snd t)) L) = [Fetch n u]"
      using history_fetches_one[of L u] L inv(1) True by (metis set_map)
    moreover have "history u (page_events R) = [Add u, Save u]"
      using R True by (intro history_pages_one) auto
    ultimately show ?thesis
      using True by (simp add: t v)
  next
    case False
    then have "history u (map (\<lambda>t. Fetch (fst t) (snd t)) L) = []"
      using L by (intro history_fetches_none) (metis set_map)
    moreover have "history u (page_events R) = []"
      using R False by (intro history_pages_none) auto
    ultimately have "history u (trace s') = history u (trace s)"
      by (simp add: t)
    moreover have "u \<in> visited s' \<longleftrightarrow> u \<in> visited s"
      using False by (simp add: v)
    ultimately show ?thesis
      using assms by (auto simp: dedup_inv_def)
  qed
  have "distinct (fetched (trace s'))"
    using inv by (auto simp: f)
  moreover have "visited s' = set (fetched (trace s'))"
    using inv(3) by (simp add: f v)
  ultimately show ?thesis
    using c h v unfolding dedup_inv_def s'_def[symmetric] by blast
qed

lemma dedup_inv_crawl: "dedup_inv (crawl_website E b out md limiter mc)"
  unfolding crawl_website_def
  by (rule crawl_loop_invariant[where I = dedup_inv]) (simp_all add: dedup_inv_init dedup_inv_level)

text \<open>
  Claim C1. In every crawl no URL is fetched more than once. The visited set only
  grows, and it holds the fetched URLs; the trace of the crawl has, for every visited
  URL, exactly one fetch, then its addition to the visited set, then the saving of its
  page, and nothing for a URL that was not visited; the URLs given to the dispatcher at
  a level are not in the visited set.
\<close>

theorem crawl_fetches_once:
  "distinct (fetched (trace (crawl_website E b out md limiter mc)))
   \<and> visited (crawl_website E b out md limiter mc)
       = set (fetched (trace (crawl_website E b out md limiter mc)))
   \<and> (\<forall>u. (u \<in> visited (crawl_website E b out md limiter mc)
            \<and> (\<exists>n. history u (trace (crawl_website E b out md limiter mc))
                      = [Fetch n u, Add u, Save u]))
          \<or> (u \<notin> visited (crawl_website E b out md limiter mc)
              \<and> history u (trace (crawl_website E b out md limiter mc)) = []))
   \<and> (\<forall>s. visited s \<subseteq> visited (crawl_level E b out limiter mc s))
   \<and> (\<forall>s. set (level_urls s) \<inter> visited s = {})"
  using dedup_inv_crawl[of E b out md limiter mc]
  by (auto simp: dedup_inv_def crawl_level_visited level_urls_def)

lemma demo_trace:
  "trace (crawl_website (demo_env 1) ''http://h/'' ''out'' 1 None 2) =
     [Crawling 0 [''http://h/''], Fetch 0 ''http://h/'', Add ''http://h/'', Save ''http://h/'',
      Crawling 1 [''http://h/a?x=1'', ''http://h/a?x=2''],
      Fetch 1 ''http://h/a?x=1'', Fetch 2 ''http://h/a?x=2'',
      Add ''http://h/a?x=2'', Save ''http://h/a?x=2'',
      Add ''http://h/a?x=1'', Save ''http://h/a?x=1'']"
  by code_simp

theorem crawl_fetches_once_witness:
  "distinct (fetched (trace (crawl_website (demo_env 1) ''http://h/'' ''out'' 1 None 2)))
   \<and> fetched (trace (crawl_website (demo_env 1) ''http://h/'' ''out'' 1 None 2))
       = [''http://h/'', ''http://h/a?x=1'', ''http://h/a?x=2'']
   \<and> history ''http://h/a?x=1'' (trace (crawl_website (demo_env 1) ''http://h/'' ''out'' 1 None 2))
       = [Fetch 1 ''http://h/a?x=1'', Add ''http://h/a?x=1'', Save ''http://h/a?x=1'']"
proof -
  have "fetched (trace (crawl_website (demo_env 1) ''http://h/'' ''out'' 1 None 2))
       = [''http://h/'', ''http://h/a?x=1'', ''http://h/a?x=2'']"
    unfolding demo_trace by code_simp
  moreover have "history ''http://h/a?x=1'' (trace (crawl_website (demo_env 1) ''http://h/'' ''out'' 1 None 2))
       = [Fetch 1 ''http://h/a?x=1'', Add ''http://h/a?x=1'', Save ''http://h/a?x=1'']"
    unfolding demo_trace by code_simp
  ultimately show ?thesis
    using crawl_fetches_once[of "demo_env 1" "''http://h/''" "''out''" 1 None 2]
    by simp
qed

section \<open>The depth bound\<close>






lemma demo_final:
  "current_level (crawl_website (demo_env 1) ''http://h/'' ''out'' 1 None 2) = [''http://h/b'']"
  "depth (crawl_website (demo_env 1) ''http://h/'' ''out'' 1 None 2) = 2"
  by code_simp+


section \<open>Where the frontier comes from\<close>

lemma found_on_append: "found_on E limiter b t u \<Longrightarrow> found_on E limiter b (t @ t') u"
  unfolding found_on_def by auto

lemma link_inv_init: "link_inv E limiter b (crawl_init b)"
  by (simp add: link_inv_def crawl_init_def)

lemma link_inv_level:
  assumes "dedup_inv s" and "link_inv E limiter b s"
  shows "link_inv E limiter b (crawl_level E b out limiter mc s)"
proof -
  define s' where "s' = crawl_level E b out limiter mc s"
  define L where "L = launches (level_pool E limiter mc s)"
  define R where "R = results (level_pool E limiter mc s)"
  define t' where "t' = [Crawling (depth s) (current_level s)]
               @ map (\<lambda>t. Fetch (fst t) (snd t)) L @ page_events R"
  have inv: "distinct (current_level s)"
    using assms(1) unfolding dedup_inv_def by blast
  have t: "trace s' = trace s @ t'"
    using crawl_level_effects(1)[OF inv] by (simp add: s'_def L_def R_def t'_def)
  have R: "set R = ray_get E limiter ` set L"
    unfolding R_def L_def by (rule level_pool_results)
  have c: "set (current_level s') \<subseteq> (\<Union>r \<in> set R. set (filter_links E (links r) b))"
    using crawl_level_effects(4)[OF inv, of E b out limiter mc] by (auto simp: s'_def R_def)
  have l: "levels (trace s') = levels (trace s) @ [(depth s, current_level s)]"
    by (simp add: t t'_def)
  have new: "found_on E limiter b (trace s') u" if u: "u \<in> set (current_level s')" for u
  proof -
    obtain r where r: "r \<in> set R" "u \<in> set (filter_links E (links r) b)"
      using u c by auto
    obtain n p where np: "(n, p) \<in> set L" "r = ray_get E limiter (n, p)"
      using r(1) R by auto
    obtain h where h: "h \<in> set (links r)" "u = urljoin E b h"
      "netloc (urlparse E u) = netloc (urlparse E b)"
      using r(2) by (auto simp: filter_links_eq)
    have "Fetch n p \<in> set (trace s')"
      using np(1) by (force simp: t t'_def)
    then show ?thesis
      unfolding found_on_def using h np(2) by blast
  qed
  have old: "u = b \<or> found_on E limiter b (trace s') u"
    if "u = b \<or> found_on E limiter b (trace s) u" for u
    using that found_on_append[of E limiter b "trace s" u t'] by (auto simp: t)
  have 1: "\<forall>u \<in> set (current_level s'). u = b \<or> found_on E limiter b (trace s') u"
    using new by blast
  have 2: "\<forall>(d, fr) \<in> set (levels (trace s')). \<forall>u \<in> set fr.
      u = b \<or> found_on E limiter b (trace s') u"
  proof (clarify)
    fix d fr u
    assume m: "(d, fr) \<in> set (levels (trace s'))" "u \<in> set fr" "\<not> found_on E limiter b (trace s') u"
    have "(d, fr) \<in> set (levels (trace s)) \<or> fr = current_level s"
      using m(1) by (auto simp: l)
    then have "u = b \<or> found_on E limiter b (trace s) u"
      using assms(2) m(2) unfolding link_inv_def by fast
    then show "u = b"
      using old m(3) by blast
  qed
  show ?thesis
    unfolding link_inv_def s'_def[symmetric] using 1 2 by blast
qed

lemma link_inv_crawl:
  "link_inv E limiter b (crawl_website E b out md limiter mc)"
proof -
  have "dedup_inv (crawl_website E b out md limiter mc)
      \<and> link_inv E limiter b (crawl_website E b out md limiter mc)"
    unfolding crawl_website_def
    by (rule crawl_loop_invariant[where I = "\<lambda>s. dedup_inv s \<and> link_inv E limiter b s"])
      (simp_all add: dedup_inv_init dedup_inv_level link_inv_init link_inv_level)
  then show ?thesis ..
qed

text \<open>
  Claim C8. Every URL that \<^verbatim>\<open>filter_links\<close> returns has the network location of
  the seed URL, and the links that resolve to another one are dropped; hence every URL
  of every frontier, the seed apart, is on the host of the seed.
\<close>

theorem frontier_same_host:
  "(\<forall>a \<in> set (filter_links E ls b). netloc (urlparse E a) = netloc (urlparse E b))
   \<and> set (filter_links E ls b)
       = {a \<in> urljoin E b ` set ls. netloc (urlparse E a) = netloc (urlparse E b)}
   \<and> (\<forall>(d, fr) \<in> set (levels (trace (crawl_website E b out md limiter mc))).
         \<forall>u \<in> set fr. u = b \<or> netloc (urlparse E u) = netloc (urlparse E b))
   \<and> (\<forall>u \<in> set (current_level (crawl_website E b out md limiter mc)).
         u = b \<or> netloc (urlparse E u) = netloc (urlparse E b))"
proof -
  have "\<forall>a \<in> set (filter_links E ls b). netloc (urlparse E a) = netloc (urlparse E b)"
    by (simp add: filter_links_eq)
  moreover have "set (filter_links E ls b)
       = {a \<in> urljoin E b ` set ls. netloc (urlparse E a) = netloc (urlparse E b)}"
    by (auto simp: filter_links_eq)
  moreover have "\<forall>(d, fr) \<in> set (levels (trace (crawl_website E b out md limiter mc))).
         \<forall>u \<in> set fr. u = b \<or> netloc (urlparse E u) = netloc (urlparse E b)"
    using link_inv_crawl[of E limiter b out md mc] unfolding link_inv_def found_on_def by fast
  moreover have "\<forall>u \<in> set (current_level (crawl_website E b out md limiter mc)).
         u = b \<or> netloc (urlparse E u) = netloc (urlparse E b)"
    using link_inv_crawl[of E limiter b out md mc] unfolding link_inv_def found_on_def by fast
  ultimately show ?thesis by blast
qed

text \<open>
  Claim C10. An \<^verbatim>\<open>href\<close> is resolved against the seed URL of the crawl, not against
  the URL of the page it was found on: the candidates of \<^verbatim>\<open>filter_links\<close> are
  \<^verbatim>\<open>urljoin(base_url, href)\<close>, and every URL of every frontier, the seed apart, is
  \<^verbatim>\<open>urljoin(base_url, h)\<close> for an \<^verbatim>\<open>href\<close> \<open>h\<close> of a page that was fetched,
  whatever the URL of that page.
\<close>

theorem links_resolved_against_seed:
  "filter_links E ls b
     = filter (\<lambda>a. netloc (urlparse E a) = netloc (urlparse E b)) (map (urljoin E b) ls)
   \<and> (\<forall>(d, fr) \<in> set (levels (trace (crawl_website E b out md limiter mc))).
         \<forall>u \<in> set fr. u = b
           \<or> (\<exists>n p h. Fetch n p \<in> set (trace (crawl_website E b out md limiter mc))
                 \<and> h \<in> set (links (ray_get E limiter (n, p))) \<and> u = urljoin E b h))
   \<and> (\<forall>u \<in> set (current_level (crawl_website E b out md limiter mc)). u = b
           \<or> (\<exists>n p h. Fetch n p \<in> set (trace (crawl_website E b out md limiter mc))
                 \<and> h \<in> set (links (ray_get E limiter (n, p))) \<and> u = urljoin E b h))"
proof -
  have "\<forall>(d, fr) \<in> set (levels (trace (crawl_website E b out md limiter mc))).
         \<forall>u \<in> set fr. u = b
           \<or> (\<exists>n p h. Fetch n p \<in> set (trace (crawl_website E b out md limiter mc))
                 \<and> h \<in> set (links (ray_get E limiter (n, p))) \<and> u = urljoin E b h)"
    using link_inv_crawl[of E limiter b out md mc] unfolding link_inv_def found_on_def by fast
  moreover have "\<forall>u \<in> set (current_level (crawl_website E b out md limiter mc)). u = b
           \<or> (\<exists>n p h. Fetch n p \<in> set (trace (crawl_website E b out md limiter mc))
                 \<and> h \<in> set (links (ray_get E limiter (n, p))) \<and> u = urljoin E b h)"
    using link_inv_crawl[of E limiter b out md mc] unfolding link_inv_def found_on_def by fast
  ultimately show ?thesis
    using filter_links_eq by blast
qed

lemma demo_filter:
  "filter_links (demo_env 1) [''http://h/a?x=1'', ''http://other/z''] ''http://h/'' = [''http://h/a?x=1'']"
  by code_simp

theorem frontier_same_host_witness:
  "filter_links (demo_env 1) [''http://h/a?x=1'', ''http://other/z''] ''http://h/'' = [''http://h/a?x=1'']
   \<and> netloc (urlparse (demo_env 1) ''http://h/a?x=1'') = netloc (urlparse (demo_env 1) ''http://h/'')
   \<and> current_level (crawl_website (demo_env 1) ''http://h/'' ''out'' 1 None 2) = [''http://h/b'']
   \<and> netloc (urlparse (demo_env 1) ''http://h/b'') = netloc (urlparse (demo_env 1) ''http://h/'')"
  using frontier_same_host[of "demo_env 1" "[''http://h/a?x=1'', ''http://other/z'']" "''http://h/''"
      "''out''" 1 None 2] demo_filter demo_final(1)
  by simp

theorem links_resolved_against_seed_witness:
  "current_level (crawl_website (demo_env 1) ''http://h/'' ''out'' 1 None 2) = [''http://h/b'']
   \<and> (\<exists>n p h. Fetch n p \<in> set (trace (crawl_website (demo_env 1) ''http://h/'' ''out'' 1 None 2))
         \<and> h \<in> set (links (ray_get (demo_env 1) None (n, p)))
         \<and> ''http://h/b'' = urljoin (demo_env 1) ''http://h/'' h)"
  using links_resolved_against_seed[of "demo_env 1" "[]" "''http://h/''" "''out''" 1 None 2]
    demo_final(1)
  by simp

section \<open>Running the crawl again\<close>

















end
